theory Spec2Isabelle
  imports Main "HOL-Library.Sublist"
begin

section \<open>JavaScript \<open>Map\<close>: an association list in insertion order\<close>

text \<open>
  A JavaScript \<open>Map\<close> iterates its entries in insertion order and holds each key once.
  It is modelled as a list of key/value pairs, oldest insertion first.
  \<open>Map.prototype.set\<close> overwrites the value of a present key where it stands and appends
  a new key at the end; \<open>Map.prototype.delete\<close> removes the key; \<open>size\<close> is the length.
\<close>

type_synonym ('k, 'v) jsmap = "('k \<times> 'v) list"

definition Map_get :: "('k, 'v) jsmap \<Rightarrow> 'k \<Rightarrow> 'v option" where
  "Map_get m k = map_of m k"

fun Map_set :: "'k \<Rightarrow> 'v \<Rightarrow> ('k, 'v) jsmap \<Rightarrow> ('k, 'v) jsmap" where
  "Map_set k v [] = [(k, v)]"
| "Map_set k v ((k', v') # m) = (if k' = k then (k, v) # m else (k', v') # Map_set k v m)"

definition Map_delete :: "'k \<Rightarrow> ('k, 'v) jsmap \<Rightarrow> ('k, 'v) jsmap" where
  "Map_delete k m = filter (\<lambda>(k', v'). k' \<noteq> k) m"

text \<open>\<open>String.prototype.includes\<close>: the argument occurs somewhere in the receiver.\<close>

fun String_includes :: "string \<Rightarrow> string \<Rightarrow> bool" where
  "String_includes [] r = (r = [])"
| "String_includes (c # cs) r = (prefix r (c # cs) \<or> String_includes cs r)"


section \<open>\<open>lib/chats/MessageCache.ts\<close>\<close>

text \<open>
  The message type \<open>IMessage\<close> is left as a type parameter. Timestamps are the
  millisecond readings of \<open>Date.now()\<close>; every function that reads the clock takes the
  reading as an argument.
\<close>

record 'm CacheEntry =
  messages :: "'m list"
  timestamp :: int
  lastFetch :: int
  query :: string

record CacheStats =
  hits :: nat
  misses :: nat
  evictions :: nat

record 'm MessageCache =
  cache :: "(string, 'm CacheEntry) jsmap"
  maxSize :: int
  ttl :: int
  stats :: CacheStats

text \<open>The constructor, with its default arguments \<open>maxSize = 50\<close>, \<open>ttl = 30000\<close>.\<close>

definition MessageCache_new :: "int \<Rightarrow> int \<Rightarrow> 'm MessageCache" where
  "MessageCache_new maxSize0 ttl0 =
     \<lparr>cache = [], maxSize = maxSize0, ttl = ttl0,
      stats = \<lparr>hits = 0, misses = 0, evictions = 0\<rparr>\<rparr>"

definition messageCache :: "'m MessageCache" where
  "messageCache = MessageCache_new 50 30000"

text \<open>\<open>get(cacheKey)\<close>, with \<open>now\<close> the reading of \<open>Date.now()\<close>.\<close>

definition MessageCache_get ::
  "string \<Rightarrow> int \<Rightarrow> 'm MessageCache \<Rightarrow> 'm list option \<times> 'm MessageCache" where
  "MessageCache_get cacheKey now c =
     (case Map_get (cache c) cacheKey of
        None \<Rightarrow> (None, c\<lparr>stats := (stats c)\<lparr>misses := misses (stats c) + 1\<rparr>\<rparr>)
      | Some entry \<Rightarrow>
          if now - timestamp entry > ttl c
          then (None, c\<lparr>cache := Map_delete cacheKey (cache c),
                         stats := (stats c)\<lparr>misses := misses (stats c) + 1\<rparr>\<rparr>)
          else (Some (messages entry),
                c\<lparr>cache := Map_set cacheKey (entry\<lparr>lastFetch := now\<rparr>)
                                (Map_delete cacheKey (cache c)),
                  stats := (stats c)\<lparr>hits := hits (stats c) + 1\<rparr>\<rparr>))"

text \<open>
  \<open>evictLRU()\<close>: the loop keeps the pair \<open>(oldestKey, oldestTime)\<close>, which starts at
  \<open>('', Date.now())\<close>, and replaces it at every entry whose \<open>lastFetch\<close> is strictly
  smaller. The deletion is guarded by the truthiness of \<open>oldestKey\<close>: the empty string
  is falsy.
\<close>

fun evictLRU_loop ::
  "(string, 'm CacheEntry) jsmap \<Rightarrow> string \<times> int \<Rightarrow> string \<times> int" where
  "evictLRU_loop [] acc = acc"
| "evictLRU_loop ((key, entry) # rest) (oldestKey, oldestTime) =
     (if lastFetch entry < oldestTime
      then evictLRU_loop rest (key, lastFetch entry)
      else evictLRU_loop rest (oldestKey, oldestTime))"

definition evictLRU :: "int \<Rightarrow> 'm MessageCache \<Rightarrow> 'm MessageCache" where
  "evictLRU now c =
     (let oldestKey = fst (evictLRU_loop (cache c) ('''', now))
      in if oldestKey \<noteq> ''''
         then c\<lparr>cache := Map_delete oldestKey (cache c),
                 stats := (stats c)\<lparr>evictions := evictions (stats c) + 1\<rparr>\<rparr>
         else c)"

text \<open>
  \<open>set(cacheKey, messages, query)\<close>. The clock is read twice: \<open>now\<close> at the top of
  \<open>set\<close> and \<open>now'\<close> inside \<open>evictLRU\<close>, when that is called.
\<close>

definition MessageCache_set ::
  "string \<Rightarrow> 'm list \<Rightarrow> string \<Rightarrow> int \<Rightarrow> int \<Rightarrow> 'm MessageCache \<Rightarrow> 'm MessageCache" where
  "MessageCache_set cacheKey msgs q now now' c =
     (let c1 = (if int (length (cache c)) \<ge> maxSize c then evictLRU now' c else c)
      in c1\<lparr>cache := Map_set cacheKey
                         \<lparr>messages = msgs, timestamp = now, lastFetch = now, query = q\<rparr>
                         (cache c1)\<rparr>)"

text \<open>
  \<open>invalidateRoom(rid)\<close>: the loop visits the entries of the map as they stood when it
  started (a deletion of the entry being visited does not disturb the iteration of a
  \<open>Map\<close>) and deletes from the live map each key that includes \<open>rid\<close>.
\<close>

fun invalidateRoom_loop ::
  "string \<Rightarrow> (string, 'm CacheEntry) jsmap \<Rightarrow> (string, 'm CacheEntry) jsmap
     \<Rightarrow> (string, 'm CacheEntry) jsmap" where
  "invalidateRoom_loop rid [] live = live"
| "invalidateRoom_loop rid ((key, entry) # rest) live =
     (if String_includes key rid
      then invalidateRoom_loop rid rest (Map_delete key live)
      else invalidateRoom_loop rid rest live)"

definition invalidateRoom :: "string \<Rightarrow> 'm MessageCache \<Rightarrow> 'm MessageCache" where
  "invalidateRoom rid c = c\<lparr>cache := invalidateRoom_loop rid (cache c) (cache c)\<rparr>"

text \<open>\<open>getStats().size\<close>.\<close>

definition getStats_size :: "'m MessageCache \<Rightarrow> nat" where
  "getStats_size c = length (cache c)"


section \<open>\<open>useMessages\<close> (\<open>views/room/MessageList/hooks\<close>): the query cache\<close>

text \<open>
  The body of the \<open>useMemo\<close> that yields \<open>query\<close>. \<open>queryCache\<close> is the module-level
  \<open>Map\<close>; \<open>newQuery\<close> is the selector the miss branch builds from \<open>rid\<close>,
  \<open>hideSysMessages\<close> and \<open>showThreadsInMainChannel\<close>. A selector is an object, hence
  truthy, so \<open>if (cachedQuery)\<close> tests presence. \<open>queryCache.keys().next().value\<close> is the
  key of the first entry in iteration order.
\<close>

definition useMessages_query ::
  "string \<Rightarrow> 'q \<Rightarrow> (string, 'q) jsmap \<Rightarrow> 'q \<times> (string, 'q) jsmap" where
  "useMessages_query cacheKey newQuery queryCache =
     (case Map_get queryCache cacheKey of
        Some cachedQuery \<Rightarrow> (cachedQuery, queryCache)
      | None \<Rightarrow>
          let qc = Map_set cacheKey newQuery queryCache
          in (newQuery,
              if length qc > 100
              then (case qc of [] \<Rightarrow> qc | (firstKey, v) # rest \<Rightarrow> Map_delete firstKey qc)
              else qc))"

text \<open>
  A sequence of renders, each with its cache key and the selector it would build, run
  against the cache one after the other.
\<close>

fun renders :: "(string \<times> 'q) list \<Rightarrow> (string, 'q) jsmap \<Rightarrow> (string, 'q) jsmap" where
  "renders [] queryCache = queryCache"
| "renders ((cacheKey, newQuery) # rest) queryCache =
     renders rest (snd (useMessages_query cacheKey newQuery queryCache))"


section \<open>\<open>lib/backgroundRefresh/ActivityTracker.ts\<close>\<close>

text \<open>
  The tracker's fields, the events it has emitted so far (oldest first), and its
  pending timers. A pending \<open>setTimeout\<close> is the time at which it becomes due:
  \<open>inactiveTimer\<close> holds the due time of the inactivity timeout (\<open>None\<close> once it has
  fired; \<open>clearTimeout\<close> followed by \<open>setTimeout\<close> replaces it), \<open>blurChecks\<close> the due
  times of the deferred checks that \<open>blur\<close> events have scheduled.

  \<open>setTimeout(callback, delay)\<close>, called at time \<open>now\<close>: the runtime keeps the delay of
  a timer as a signed 32-bit integer. A delay from 0 to 2147483647 is waited out, and
  the callback is due at \<open>now + delay\<close>; a negative delay, or one above 2147483647, is
  not waited out, and the callback is due at once.
\<close>

definition setTimeout_due :: "int \<Rightarrow> int \<Rightarrow> int" where
  "setTimeout_due now delay =
     (if 0 \<le> delay \<and> delay \<le> 2147483647 then now + delay else now)"

datatype TrackerEvent = Active | Inactive

record ActivityTracker =
  inactiveTimer :: "int option"
  isUserActive :: bool
  lastActivity :: int
  inactiveTime :: int
  blurChecks :: "int list"
  emitted :: "TrackerEvent list"

definition ActivityTracker_emit :: "TrackerEvent \<Rightarrow> ActivityTracker \<Rightarrow> ActivityTracker" where
  "ActivityTracker_emit ev s = s\<lparr>emitted := emitted s @ [ev]\<rparr>"

definition resetActivityTracking :: "int \<Rightarrow> ActivityTracker \<Rightarrow> ActivityTracker" where
  "resetActivityTracking now s =
     s\<lparr>inactiveTimer := Some (setTimeout_due now (inactiveTime s))\<rparr>"

definition onUserInactive :: "ActivityTracker \<Rightarrow> ActivityTracker" where
  "onUserInactive s =
     (if \<not> isUserActive s then s
      else ActivityTracker_emit Inactive (s\<lparr>isUserActive := False\<rparr>))"

definition onActivity :: "int \<Rightarrow> ActivityTracker \<Rightarrow> ActivityTracker" where
  "onActivity now s =
     (let s1 = s\<lparr>lastActivity := now\<rparr>
      in if \<not> isUserActive s1
         then ActivityTracker_emit Active
                (resetActivityTracking now (s1\<lparr>isUserActive := True\<rparr>))
         else s1)"

text \<open>The constructor, run at time \<open>now\<close>.\<close>

definition ActivityTracker_new :: "int \<Rightarrow> int \<Rightarrow> ActivityTracker" where
  "ActivityTracker_new now inactiveTime0 =
     resetActivityTracking now
       \<lparr>inactiveTimer = None, isUserActive = True, lastActivity = now,
        inactiveTime = inactiveTime0, blurChecks = [], emitted = []\<rparr>"

definition updateInactiveTime :: "int \<Rightarrow> int \<Rightarrow> ActivityTracker \<Rightarrow> ActivityTracker" where
  "updateInactiveTime time now s = resetActivityTracking now (s\<lparr>inactiveTime := time\<rparr>)"

text \<open>
  What can happen to a tracker. \<open>Activity\<close> is any of the document events
  \<open>mousedown\<close>, \<open>mousemove\<close>, \<open>keypress\<close>, \<open>scroll\<close>, \<open>touchstart\<close>, \<open>click\<close> or the
  window's \<open>focus\<close>; \<open>VisibilityChange hidden\<close> carries \<open>document.hidden\<close>. A timer
  callback runs only when its timer is pending and due: \<open>InactiveTimerFires\<close> and
  \<open>BlurCheckFires\<close> do nothing otherwise. All deferred blur checks have the same delay,
  so they come due in the order they were scheduled.
\<close>

datatype Signal =
    Activity
  | VisibilityChange bool
  | Blur
  | InactiveTimerFires
  | BlurCheckFires
  | UpdateInactiveTime int

fun deliver :: "int \<Rightarrow> Signal \<Rightarrow> ActivityTracker \<Rightarrow> ActivityTracker" where
  "deliver now Activity s = onActivity now s"
| "deliver now (VisibilityChange hidden) s =
     (if hidden then onUserInactive s else onActivity now s)"
| "deliver now Blur s = s\<lparr>blurChecks := blurChecks s @ [setTimeout_due now 1000]\<rparr>"
| "deliver now InactiveTimerFires s =
     (case inactiveTimer s of
        None \<Rightarrow> s
      | Some due \<Rightarrow> if due \<le> now then onUserInactive (s\<lparr>inactiveTimer := None\<rparr>) else s)"
| "deliver now BlurCheckFires s =
     (case blurChecks s of
        [] \<Rightarrow> s
      | due # rest \<Rightarrow>
          if due \<le> now
          then (let s1 = s\<lparr>blurChecks := rest\<rparr>
                in if now - lastActivity s1 > 1000 then onUserInactive s1 else s1)
          else s)"
| "deliver now (UpdateInactiveTime time) s = updateInactiveTime time now s"

fun ActivityTracker_run :: "(int \<times> Signal) list \<Rightarrow> ActivityTracker \<Rightarrow> ActivityTracker" where
  "ActivityTracker_run [] s = s"
| "ActivityTracker_run ((now, sig) # rest) s = ActivityTracker_run rest (deliver now sig s)"

text \<open>
  \<open>alternates a evs\<close>: read from a tracker whose \<open>isUserActive\<close> is \<open>a\<close>, every event of
  \<open>evs\<close> is a change of state: \<open>Inactive\<close> when the tracker was active, \<open>Active\<close> when
  it was not.
\<close>

fun alternates :: "bool \<Rightarrow> TrackerEvent list \<Rightarrow> bool" where
  "alternates a [] = True"
| "alternates a (ev # evs) = (ev = (if a then Inactive else Active) \<and> alternates (\<not> a) evs)"

definition consistent :: "ActivityTracker \<Rightarrow> bool" where
  "consistent s \<longleftrightarrow> alternates True (emitted s) \<and> isUserActive s = even (length (emitted s))"


section \<open>\<open>lib/backgroundRefresh/RoomPreserver.ts\<close>\<close>

text \<open>
  \<open>PreservedRoomData\<close> (\<open>lib/backgroundRefresh/types.ts\<close>); its optional \<open>messages\<close>
  field is neither written nor read by \<open>RoomPreserver\<close> and is left out. The fields
  carry the prefix \<open>preserved_\<close> to keep them apart from those of the room store.
\<close>

record PreservedRoomData =
  preserved_rid :: string
  preserved_scroll :: "int option"
  preserved_lastTime :: "int option"
  preserved_atBottom :: "bool option"

text \<open>
  Modelled from the spec: \<open>RoomManager\<close> and the per-room view store it hands out are
  not among the sources. The spec gives the collaborator as "a current open room id
  accessor; a per-room view-store accessor exposing \<open>{scroll, lastTime, atBottom}\<close>
  get/update": the store is a record of the three fields, \<open>update\<close> assigns the three
  values it is given, \<open>opened\<close> is the open room id and \<open>getStore\<close> yields the store of
  a room, if it has one.
\<close>

record RoomStore =
  scroll :: "int option"
  lastTime :: "int option"
  atBottom :: "bool option"

definition RoomStore_update ::
  "int option \<Rightarrow> int option \<Rightarrow> bool option \<Rightarrow> RoomStore \<Rightarrow> RoomStore" where
  "RoomStore_update sc lt ab store = store\<lparr>scroll := sc, lastTime := lt, atBottom := ab\<rparr>"

record RoomManager =
  opened :: "string option"
  getStore :: "string \<Rightarrow> RoomStore option"

record RoomPreserver =
  preservedData :: "PreservedRoomData option"

text \<open>
  What awaiting a call yields: \<open>restore\<close> is declared \<open>Promise<void>\<close> and every path
  of it ends without a value.
\<close>

datatype jsvalue = Undefined | Boolean bool

text \<open>\<open>preserve()\<close>. \<open>if (!roomId) return\<close> leaves on \<open>undefined\<close> and on the empty string.\<close>

definition RoomPreserver_preserve ::
  "RoomManager \<Rightarrow> RoomPreserver \<Rightarrow> PreservedRoomData option \<times> RoomPreserver" where
  "RoomPreserver_preserve rm rp =
     (case opened rm of
        None \<Rightarrow> (None, rp)
      | Some roomId \<Rightarrow>
          if roomId = '''' then (None, rp)
          else (case getStore rm roomId of
                  None \<Rightarrow> (None, rp)
                | Some store \<Rightarrow>
                    let d = \<lparr>preserved_rid = roomId, preserved_scroll = scroll store,
                             preserved_lastTime = lastTime store,
                             preserved_atBottom = atBottom store\<rparr>
                    in (Some d, rp\<lparr>preservedData := Some d\<rparr>)))"

text \<open>\<open>restore()\<close>: the value it resolves to, the room manager and the preserver after it.\<close>

definition RoomPreserver_restore ::
  "RoomManager \<Rightarrow> RoomPreserver \<Rightarrow> jsvalue \<times> RoomManager \<times> RoomPreserver" where
  "RoomPreserver_restore rm rp =
     (case preservedData rp of
        None \<Rightarrow> (Undefined, rm, rp)
      | Some d \<Rightarrow>
          let rm' = (if opened rm = Some (preserved_rid d)
                     then (case getStore rm (preserved_rid d) of
                             None \<Rightarrow> rm
                           | Some store \<Rightarrow>
                               rm\<lparr>getStore := (getStore rm)
                                    (preserved_rid d \<mapsto>
                                       RoomStore_update (preserved_scroll d)
                                         (preserved_lastTime d) (preserved_atBottom d) store)\<rparr>)
                     else rm)
          in (Undefined, rm', rp\<lparr>preservedData := None\<rparr>))"


section \<open>\<open>SimpleBackgroundRefreshManager.performRefresh\<close> and \<open>FullResetMemoryCleanup\<close>\<close>

text \<open>
  One cleanup pass is a sequence of effects on the outside world: an event handed to
  the manager's emitter, a request to a collaborator, or a line on the console (the
  method and its first argument). The pass is modelled as a function that appends the
  effects, in the order the code performs them, to those already there.
\<close>

datatype effect = Emit string | Invoke string | Console string string

record BackgroundRefreshConfig =
  config_inactiveTime :: int
  refreshInterval :: int
  enabled :: bool
  preserveCurrentRoom :: bool

text \<open>
  The part of the manager a pass can reach: its \<open>config\<close>, the \<open>cleanupHistory\<close> of its
  \<open>memoryCleanup\<close>, its \<open>roomPreserver\<close>, and the effects so far. (\<open>activityTracker\<close> and
  \<open>refreshTimer\<close> are not touched by \<open>performRefresh\<close>.)
\<close>

record Manager =
  config :: BackgroundRefreshConfig
  cleanupHistory :: "string list"
  roomPreserver :: RoomPreserver
  effects :: "effect list"

text \<open>
  An \<open>async\<close> function either throws (\<open>Inl\<close>, with what was thrown) or completes
  (\<open>Inr\<close>). \<open>andThen\<close> is the sequencing of two awaited statements: a throw of the first
  skips the second. \<open>tryCatch\<close> is \<open>try { body } catch (error) { handler }\<close>.
\<close>

type_synonym thrown = string

type_synonym outcome = "(thrown + unit) \<times> Manager"

definition andThen ::
  "(Manager \<Rightarrow> outcome) \<Rightarrow> (Manager \<Rightarrow> outcome) \<Rightarrow> Manager \<Rightarrow> outcome" where
  "andThen f g m = (case f m of (Inl e, m') \<Rightarrow> (Inl e, m') | (Inr u, m') \<Rightarrow> g m')"

definition tryCatch ::
  "(Manager \<Rightarrow> outcome) \<Rightarrow> (thrown \<Rightarrow> Manager \<Rightarrow> outcome) \<Rightarrow> Manager \<Rightarrow> outcome" where
  "tryCatch body handler m =
     (case body m of (Inl e, m') \<Rightarrow> handler e m' | (Inr u, m') \<Rightarrow> (Inr u, m'))"

text \<open>
  \<open>this.emit(name)\<close> and the \<open>console\<close> methods record their effect and complete. A
  request to a collaborator is recorded and then returns, throwing or completing as
  the collaborator decides: \<open>throws name\<close> tells whether the request \<open>name\<close> throws
  in this pass. The requests are \<open>VideoConfManager.dismissedIncomingCalls()\<close>, the
  dispatch of the \<open>voip:cleanup-history-only\<close> event on \<open>window\<close>, the removal of the
  elements that \<open>document.querySelectorAll('[data-cleanup-safe]')\<close> finds, and
  \<open>microtaskCleanup.performMicrotaskCleanup()\<close>.
\<close>

definition Manager_emit :: "string \<Rightarrow> Manager \<Rightarrow> outcome" where
  "Manager_emit name m = (Inr (), m\<lparr>effects := effects m @ [Emit name]\<rparr>)"

definition console :: "string \<Rightarrow> string \<Rightarrow> Manager \<Rightarrow> outcome" where
  "console method msg m = (Inr (), m\<lparr>effects := effects m @ [Console method msg]\<rparr>)"

definition invoke :: "(string \<Rightarrow> bool) \<Rightarrow> string \<Rightarrow> Manager \<Rightarrow> outcome" where
  "invoke throws name m =
     ((if throws name then Inl name else Inr ()), m\<lparr>effects := effects m @ [Invoke name]\<rparr>)"

text \<open>The four steps of \<open>FullResetMemoryCleanup\<close>, each with its own \<open>try\<close>/\<open>catch\<close>.\<close>

definition safeCleanupVideoConf :: "(string \<Rightarrow> bool) \<Rightarrow> Manager \<Rightarrow> outcome" where
  "safeCleanupVideoConf throws =
     tryCatch (invoke throws ''VideoConfManager.dismissedIncomingCalls'')
       (\<lambda>error. console ''warn'' ''[FullResetCleanup] Safe VideoConf cleanup failed:'')"

definition safeCleanupVoIP :: "(string \<Rightarrow> bool) \<Rightarrow> Manager \<Rightarrow> outcome" where
  "safeCleanupVoIP throws =
     tryCatch (invoke throws ''window.dispatchEvent(voip:cleanup-history-only)'')
       (\<lambda>error. console ''warn'' ''[FullResetCleanup] Safe VoIP cleanup failed:'')"

definition safeCleanupDOMAndEvents :: "(string \<Rightarrow> bool) \<Rightarrow> Manager \<Rightarrow> outcome" where
  "safeCleanupDOMAndEvents throws =
     tryCatch (invoke throws ''document.querySelectorAll([data-cleanup-safe]).remove'')
       (\<lambda>error. console ''warn'' ''[FullResetCleanup] Safe DOM cleanup failed:'')"

definition safeCleanupMicrotasks :: "(string \<Rightarrow> bool) \<Rightarrow> Manager \<Rightarrow> outcome" where
  "safeCleanupMicrotasks throws =
     tryCatch (invoke throws ''microtaskCleanup.performMicrotaskCleanup'')
       (\<lambda>error. console ''warn'' ''[FullResetCleanup] Safe microtask cleanup failed:'')"

definition pushHistory :: "string list \<Rightarrow> Manager \<Rightarrow> outcome" where
  "pushHistory entries m = (Inr (), m\<lparr>cleanupHistory := cleanupHistory m @ entries\<rparr>)"

definition performSafeCleanup :: "(string \<Rightarrow> bool) \<Rightarrow> Manager \<Rightarrow> outcome" where
  "performSafeCleanup throws =
     tryCatch
       (andThen (safeCleanupVideoConf throws)
       (andThen (safeCleanupVoIP throws)
       (andThen (safeCleanupDOMAndEvents throws)
       (andThen (safeCleanupMicrotasks throws)
                (pushHistory [''Safe VideoConf cleanup'', ''Safe VoIP cleanup'',
                              ''Safe DOM cleanup'', ''Safe microtask cleanup''])))))
       (\<lambda>error. console ''error'' ''[FullResetCleanup] Safe cleanup error:'')"

text \<open>
  \<open>logCleanupResults()\<close>: a group, one \<open>console.log\<close> per history entry, the group's
  end. The first argument of each \<open>console.log\<close> is the check mark U+2713, here the
  three bytes of its UTF-8 encoding; the entry is the second argument.
\<close>

definition check_mark :: string where
  "check_mark = [CHR 0xE2, CHR 0x9C, CHR 0x93]"

definition logCleanupResults :: "Manager \<Rightarrow> outcome" where
  "logCleanupResults m =
     (Inr (), m\<lparr>effects := effects m
                   @ [Console ''group'' ''[FullResetCleanup] Cleanup Results'']
                   @ map (\<lambda>entry. Console ''log'' check_mark) (cleanupHistory m)
                   @ [Console ''groupEnd'' '''']\<rparr>)"

text \<open>\<open>performFullReset(preserveCurrentRoom)\<close>: the parameter is not read.\<close>

definition performFullReset :: "(string \<Rightarrow> bool) \<Rightarrow> bool \<Rightarrow> Manager \<Rightarrow> outcome" where
  "performFullReset throws preserve =
     andThen (console ''warn''
                ''[FullResetCleanup] FULL RESET DISABLED - causes room access issues'')
    (andThen (console ''warn'' ''[FullResetCleanup] Falling back to safe cleanup only'')
    (andThen (performSafeCleanup throws)
    (andThen (\<lambda>m. (Inr (), m\<lparr>cleanupHistory :=
                                  [''EMERGENCY MODE: Performed safe cleanup only'']\<rparr>))
             logCleanupResults)))"

text \<open>\<open>performRefresh()\<close>: the manager after the pass.\<close>

definition performRefresh :: "(string \<Rightarrow> bool) \<Rightarrow> Manager \<Rightarrow> Manager" where
  "performRefresh throws m =
     snd (tryCatch
            (andThen (Manager_emit ''refresh/started'')
            (andThen (\<lambda>m'. performFullReset throws (preserveCurrentRoom (config m')) m')
                     (Manager_emit ''refresh/completed'')))
            (\<lambda>error. console ''warn'' ''Background refresh error:'')
            m)"

text \<open>The requests of the four steps, in the order of \<open>performSafeCleanup\<close>.\<close>

definition steps :: "string list" where
  "steps = [''VideoConfManager.dismissedIncomingCalls'',
            ''window.dispatchEvent(voip:cleanup-history-only)'',
            ''document.querySelectorAll([data-cleanup-safe]).remove'',
            ''microtaskCleanup.performMicrotaskCleanup'']"

fun isInvoke :: "effect \<Rightarrow> bool" where
  "isInvoke (Invoke name) = True"
| "isInvoke e = False"

text \<open>The effects of one step, and of the whole of \<open>performFullReset\<close>, written out.\<close>

definition step_effects :: "(string \<Rightarrow> bool) \<Rightarrow> string \<Rightarrow> string \<Rightarrow> effect list" where
  "step_effects throws name msg =
     Invoke name # (if throws name then [Console ''warn'' msg] else [])"

definition pass_effects :: "(string \<Rightarrow> bool) \<Rightarrow> effect list" where
  "pass_effects throws =
     [Console ''warn'' ''[FullResetCleanup] FULL RESET DISABLED - causes room access issues'',
      Console ''warn'' ''[FullResetCleanup] Falling back to safe cleanup only'']
     @ step_effects throws ''VideoConfManager.dismissedIncomingCalls''
         ''[FullResetCleanup] Safe VideoConf cleanup failed:''
     @ step_effects throws ''window.dispatchEvent(voip:cleanup-history-only)''
         ''[FullResetCleanup] Safe VoIP cleanup failed:''
     @ step_effects throws ''document.querySelectorAll([data-cleanup-safe]).remove''
         ''[FullResetCleanup] Safe DOM cleanup failed:''
     @ step_effects throws ''microtaskCleanup.performMicrotaskCleanup''
         ''[FullResetCleanup] Safe microtask cleanup failed:''
     @ [Console ''group'' ''[FullResetCleanup] Cleanup Results'',
        Console ''log'' check_mark,
        Console ''groupEnd'' '''']"


section \<open>Concrete inputs\<close>

definition entry_a :: "nat CacheEntry" where
  "entry_a = \<lparr>messages = [1], timestamp = 0, lastFetch = 0, query = ''qa''\<rparr>"

definition entry_b :: "nat CacheEntry" where
  "entry_b = \<lparr>messages = [2], timestamp = 2, lastFetch = 2, query = ''qb''\<rparr>"

definition entry_c :: "nat CacheEntry" where
  "entry_c = \<lparr>messages = [3], timestamp = 10, lastFetch = 10, query = ''qc''\<rparr>"

text \<open>A cache of one entry with the default bounds, and a full cache of capacity two.\<close>

definition cache_a :: "nat MessageCache" where
  "cache_a = \<lparr>cache = [(''room1-a'', entry_a)], maxSize = 50, ttl = 30000,
              stats = \<lparr>hits = 0, misses = 0, evictions = 0\<rparr>\<rparr>"

definition cache_ab :: "nat MessageCache" where
  "cache_ab = \<lparr>cache = [(''room1-a'', entry_a), (''room2-b'', entry_b)], maxSize = 2,
               ttl = 30000, stats = \<lparr>hits = 0, misses = 0, evictions = 0\<rparr>\<rparr>"

text \<open>A query cache at its bound: a hundred keys \<open>a\<close>, \<open>aa\<close>, \<open>aaa\<close>, ...\<close>

definition queryCache100 :: "(string, nat) jsmap" where
  "queryCache100 = map (\<lambda>n. (replicate (Suc n) CHR ''a'', n)) [0..<100]"

text \<open>
  The snapshot was taken while room \<open>A\<close> was open and scrolled to 120; since then the
  view of room \<open>A\<close> has moved to the bottom, and the user is in room \<open>A\<close> or has gone
  to room \<open>B\<close>.
\<close>

definition store_captured :: RoomStore where
  "store_captured = \<lparr>scroll = Some 120, lastTime = Some 1000, atBottom = Some False\<rparr>"

definition rooms_captured :: RoomManager where
  "rooms_captured = \<lparr>opened = Some ''A'', getStore = [''A'' \<mapsto> store_captured]\<rparr>"

definition store_A :: RoomStore where
  "store_A = \<lparr>scroll = Some 0, lastTime = None, atBottom = Some True\<rparr>"

definition snapshot_A :: PreservedRoomData where
  "snapshot_A = \<lparr>preserved_rid = ''A'', preserved_scroll = Some 120,
                  preserved_lastTime = Some 1000, preserved_atBottom = Some False\<rparr>"

definition rooms_at_A :: RoomManager where
  "rooms_at_A = \<lparr>opened = Some ''A'', getStore = [''A'' \<mapsto> store_A]\<rparr>"

definition rooms_at_B :: RoomManager where
  "rooms_at_B = \<lparr>opened = Some ''B'', getStore = [''A'' \<mapsto> store_A]\<rparr>"

definition preserver_A :: RoomPreserver where
  "preserver_A = \<lparr>preservedData = Some snapshot_A\<rparr>"

text \<open>The manager as its constructor leaves it, and a pass in which the VoIP request throws.\<close>

definition manager0 :: Manager where
  "manager0 = \<lparr>config = \<lparr>config_inactiveTime = 300000, refreshInterval = 600000,
                          enabled = True, preserveCurrentRoom = True\<rparr>,
               cleanupHistory = [], roomPreserver = \<lparr>preservedData = None\<rparr>, effects = []\<rparr>"

definition voip_throws :: "string \<Rightarrow> bool" where
  "voip_throws name = (name = ''window.dispatchEvent(voip:cleanup-history-only)'')"

definition nothing_throws :: "string \<Rightarrow> bool" where
  "nothing_throws name = False"


section \<open>Facts about the map operations\<close>

lemma includes_iff_sublist: "String_includes s r \<longleftrightarrow> sublist r s"
  by (induction s) (simp_all add: sublist_Cons_right)

lemma Map_delete_absent: "k \<notin> fst ` set m \<Longrightarrow> Map_delete k m = m"
  by (induction m) (auto simp: Map_delete_def)

lemma Map_delete_notin: "k \<notin> fst ` set (Map_delete k m)"
  by (induction m) (auto simp: Map_delete_def)

lemma Map_delete_map_of: "map_of (Map_delete k m) = (map_of m)(k := None)"
  by (induction m) (auto simp: Map_delete_def fun_eq_iff)

lemma Map_delete_split:
  "distinct (map fst (pre @ (k, v) # post)) \<Longrightarrow> Map_delete k (pre @ (k, v) # post) = pre @ post"
proof -
  assume d: "distinct (map fst (pre @ (k, v) # post))"
  then have "k \<notin> fst ` set pre" and "k \<notin> fst ` set post"
    by auto
  then have "Map_delete k pre = pre" and "Map_delete k post = post"
    by (simp_all add: Map_delete_absent)
  then show ?thesis
    by (simp add: Map_delete_def)
qed

lemma Map_delete_length:
  "distinct (map fst m) \<Longrightarrow> map_of m k = Some v \<Longrightarrow> Suc (length (Map_delete k m)) = length m"
proof (induction m)
  case Nil
  then show ?case by simp
next
  case (Cons p m)
  obtain k' v' where p: "p = (k', v')" by (cases p)
  show ?case
  proof (cases "k' = k")
    case True
    with Cons.prems p have "k \<notin> fst ` set m" by auto
    then have "Map_delete k m = m" by (rule Map_delete_absent)
    with True p show ?thesis by (simp add: Map_delete_def)
  next
    case False
    with Cons p show ?thesis by (simp add: Map_delete_def)
  qed
qed

lemma Map_delete_hd_length: "m \<noteq> [] \<Longrightarrow> length (Map_delete (fst (hd m)) m) < length m"
  by (cases m) (auto simp: Map_delete_def less_Suc_eq_le)

lemma Map_set_absent: "k \<notin> fst ` set m \<Longrightarrow> Map_set k v m = m @ [(k, v)]"
  by (induction m) auto

lemma Map_set_length:
  "length (Map_set k v m) = (if k \<in> fst ` set m then length m else Suc (length m))"
  by (induction m) (auto simp: rev_image_eqI)

lemma map_of_None_notin: "map_of m k = None \<longleftrightarrow> k \<notin> fst ` set m"
  by (simp add: map_of_eq_None_iff)

text \<open>A \<open>Map\<close> holds each key once, and the operations keep it so.\<close>

lemma Map_delete_distinct: "distinct (map fst m) \<Longrightarrow> distinct (map fst (Map_delete k m))"
  unfolding Map_delete_def by (simp only: distinct_map_filter)

lemma Map_set_keys:
  "map fst (Map_set k v m) = (if k \<in> fst ` set m then map fst m else map fst m @ [k])"
  by (induction m) (auto simp: rev_image_eqI)

lemma Map_set_distinct: "distinct (map fst m) \<Longrightarrow> distinct (map fst (Map_set k v m))"
  by (auto simp: Map_set_keys)

lemma MessageCache_get_distinct:
  "distinct (map fst (cache c)) \<Longrightarrow> distinct (map fst (cache (snd (MessageCache_get k now c))))"
  by (auto simp: MessageCache_get_def Map_set_distinct Map_delete_distinct split: option.splits)

lemma evictLRU_distinct:
  "distinct (map fst (cache c)) \<Longrightarrow> distinct (map fst (cache (evictLRU now c)))"
  by (simp add: evictLRU_def Let_def Map_delete_distinct)

lemma MessageCache_set_distinct:
  "distinct (map fst (cache c)) \<Longrightarrow>
   distinct (map fst (cache (MessageCache_set k msgs q now now' c)))"
  by (simp add: MessageCache_set_def Let_def Map_set_distinct evictLRU_distinct)

text \<open>The concrete caches are what \<open>set\<close> builds from a fresh cache.\<close>

lemma cache_a_built:
  "MessageCache_set ''room1-a'' [1] ''qa'' 0 0 messageCache = cache_a"
  by (simp add: MessageCache_set_def messageCache_def MessageCache_new_def cache_a_def
      entry_a_def)

lemma cache_ab_built:
  "MessageCache_set ''room2-b'' [2] ''qb'' 2 2
     (MessageCache_set ''room1-a'' [1] ''qa'' 0 0 (MessageCache_new 2 30000)) = cache_ab"
  by (simp add: MessageCache_set_def MessageCache_new_def cache_ab_def entry_a_def entry_b_def)


section \<open>\<open>MessageCache.invalidateRoom\<close>\<close>

lemma invalidateRoom_loop_filter:
  "invalidateRoom_loop rid es live =
     filter (\<lambda>(k, e). \<not> (String_includes k rid \<and> k \<in> fst ` set es)) live"
proof (induction es arbitrary: live)
  case Nil
  then show ?case by simp
next
  case (Cons p es)
  obtain key entry where p: "p = (key, entry)" by (cases p)
  show ?case
    unfolding p by (auto simp: Cons.IH Map_delete_def intro!: filter_cong)
qed

text \<open>
  C8. For every cache and every room id \<open>rid\<close>, \<open>invalidateRoom rid\<close> keeps, in their
  order, exactly the entries whose key does not contain \<open>rid\<close> as a contiguous substring
  (\<open>sublist rid key\<close>: \<open>key = ps @ rid @ ss\<close> for some \<open>ps\<close> and \<open>ss\<close>), whatever the
  insertion order was, and changes neither the counters nor the capacity nor the TTL.
\<close>

theorem invalidateRoom_exact:
  "cache (invalidateRoom rid c) = filter (\<lambda>(key, entry). \<not> sublist rid key) (cache c)
   \<and> stats (invalidateRoom rid c) = stats c
   \<and> maxSize (invalidateRoom rid c) = maxSize c
   \<and> ttl (invalidateRoom rid c) = ttl c"
proof -
  have "invalidateRoom_loop rid (cache c) (cache c)
          = filter (\<lambda>(key, entry). \<not> sublist rid key) (cache c)"
    unfolding invalidateRoom_loop_filter
    by (rule filter_cong) (force simp: includes_iff_sublist)+
  then show ?thesis
    by (simp add: invalidateRoom_def)
qed

text \<open>
  In the cache holding \<open>room1-a\<close> and \<open>room2-b\<close>, invalidating \<open>room1\<close> leaves
  \<open>room2-b\<close> alone, and the counters stay at zero.
\<close>

theorem invalidateRoom_exact_witness:
  "cache (invalidateRoom ''room1'' cache_ab) = [(''room2-b'', entry_b)]
   \<and> stats (invalidateRoom ''room1'' cache_ab) = \<lparr>hits = 0, misses = 0, evictions = 0\<rparr>"
proof -
  have a: "sublist ''room1'' ''room1-a''"
    by (simp add: includes_iff_sublist [symmetric])
  have b: "\<not> sublist ''room1'' ''room2-b''"
    by (simp add: includes_iff_sublist [symmetric])
  from invalidateRoom_exact [of "''room1''" cache_ab] a b show ?thesis
    by (simp add: cache_ab_def)
qed


section \<open>\<open>MessageCache.get\<close>\<close>

text \<open>
  C6, as the claim states it, fails: an entry created at 0 with the default TTL of
  30000 is still served at \<open>now = 30000\<close>, where \<open>now >= createdAt + ttl\<close> holds. The
  call is a hit and the entry stays.
\<close>

theorem MessageCache_get_boundary_counterexample:
  "30000 \<ge> timestamp entry_a + ttl cache_a
   \<and> fst (MessageCache_get ''room1-a'' 30000 cache_a) = Some [1]
   \<and> hits (stats (snd (MessageCache_get ''room1-a'' 30000 cache_a))) = 1
   \<and> misses (stats (snd (MessageCache_get ''room1-a'' 30000 cache_a))) = 0
   \<and> getStats_size (snd (MessageCache_get ''room1-a'' 30000 cache_a)) = 1"
  by (simp add: MessageCache_get_def cache_a_def entry_a_def Map_get_def Map_delete_def
      getStats_size_def)

text \<open>
  C6, amended. For an entry present under \<open>cacheKey\<close>: once \<open>now - timestamp > ttl\<close>
  (strictly), \<open>get\<close> returns nothing, counts a miss and deletes the entry on that same
  call, so that the reported size goes down by one; while \<open>now - timestamp \<le> ttl\<close> it
  returns the entry's messages, counts a hit, sets \<open>lastFetch\<close> to \<open>now\<close> and moves the
  entry to the end of the iteration order.
\<close>

theorem MessageCache_get_ttl_strict:
  assumes present: "Map_get (cache c) cacheKey = Some entry"
    and dist: "distinct (map fst (cache c))"
  shows "(ttl c < now - timestamp entry \<longrightarrow>
            MessageCache_get cacheKey now c =
              (None, c\<lparr>cache := Map_delete cacheKey (cache c),
                        stats := (stats c)\<lparr>misses := misses (stats c) + 1\<rparr>\<rparr>)
            \<and> Map_get (cache (snd (MessageCache_get cacheKey now c))) cacheKey = None
            \<and> Suc (getStats_size (snd (MessageCache_get cacheKey now c))) = getStats_size c)
       \<and> (now - timestamp entry \<le> ttl c \<longrightarrow>
            MessageCache_get cacheKey now c =
              (Some (messages entry),
               c\<lparr>cache := Map_delete cacheKey (cache c)
                              @ [(cacheKey, entry\<lparr>lastFetch := now\<rparr>)],
                 stats := (stats c)\<lparr>hits := hits (stats c) + 1\<rparr>\<rparr>))"
proof (intro conjI impI)
  assume expired: "ttl c < now - timestamp entry"
  then show eq: "MessageCache_get cacheKey now c =
              (None, c\<lparr>cache := Map_delete cacheKey (cache c),
                        stats := (stats c)\<lparr>misses := misses (stats c) + 1\<rparr>\<rparr>)"
    using present by (simp add: MessageCache_get_def)
  show "Map_get (cache (snd (MessageCache_get cacheKey now c))) cacheKey = None"
    unfolding eq by (simp add: Map_get_def Map_delete_map_of)
  from present have "map_of (cache c) cacheKey = Some entry"
    by (simp add: Map_get_def)
  with dist have "Suc (length (Map_delete cacheKey (cache c))) = length (cache c)"
    by (rule Map_delete_length)
  then show "Suc (getStats_size (snd (MessageCache_get cacheKey now c))) = getStats_size c"
    unfolding eq by (simp add: getStats_size_def)
next
  assume fresh: "now - timestamp entry \<le> ttl c"
  have "Map_set cacheKey (entry\<lparr>lastFetch := now\<rparr>) (Map_delete cacheKey (cache c))
          = Map_delete cacheKey (cache c) @ [(cacheKey, entry\<lparr>lastFetch := now\<rparr>)]"
    by (rule Map_set_absent) (rule Map_delete_notin)
  with fresh present show "MessageCache_get cacheKey now c =
              (Some (messages entry),
               c\<lparr>cache := Map_delete cacheKey (cache c)
                              @ [(cacheKey, entry\<lparr>lastFetch := now\<rparr>)],
                 stats := (stats c)\<lparr>hits := hits (stats c) + 1\<rparr>\<rparr>)"
    by (simp add: MessageCache_get_def)
qed

text \<open>
  The entry created at 0 is gone at 30001 and served at 30000; in the two-entry cache a
  hit on \<open>room1-a\<close> moves it behind \<open>room2-b\<close>.
\<close>

theorem MessageCache_get_ttl_strict_witness:
  "Map_get (cache cache_ab) ''room1-a'' = Some entry_a
   \<and> distinct (map fst (cache cache_ab))
   \<and> ttl cache_ab < 30001 - timestamp entry_a
   \<and> 30000 - timestamp entry_a \<le> ttl cache_ab
   \<and> MessageCache_get ''room1-a'' 30001 cache_ab =
        (None, cache_ab\<lparr>cache := [(''room2-b'', entry_b)],
                         stats := \<lparr>hits = 0, misses = 1, evictions = 0\<rparr>\<rparr>)
   \<and> getStats_size (snd (MessageCache_get ''room1-a'' 30001 cache_ab)) = 1
   \<and> MessageCache_get ''room1-a'' 30000 cache_ab =
        (Some [1],
         cache_ab\<lparr>cache := [(''room2-b'', entry_b), (''room1-a'', entry_a\<lparr>lastFetch := 30000\<rparr>)],
                   stats := \<lparr>hits = 1, misses = 0, evictions = 0\<rparr>\<rparr>)"
proof -
  have p: "Map_get (cache cache_ab) ''room1-a'' = Some entry_a"
    by (simp add: cache_ab_def Map_get_def)
  have d: "distinct (map fst (cache cache_ab))"
    by (simp add: cache_ab_def)
  have t1: "ttl cache_ab < 30001 - timestamp entry_a"
    and t2: "30000 - timestamp entry_a \<le> ttl cache_ab"
    by (simp_all add: cache_ab_def entry_a_def)
  from MessageCache_get_ttl_strict [OF p d, of 30001] t1
  have a: "MessageCache_get ''room1-a'' 30001 cache_ab =
             (None, cache_ab\<lparr>cache := Map_delete ''room1-a'' (cache cache_ab),
                stats := (stats cache_ab)\<lparr>misses := misses (stats cache_ab) + 1\<rparr>\<rparr>)"
    and a2: "Suc (getStats_size (snd (MessageCache_get ''room1-a'' 30001 cache_ab)))
               = getStats_size cache_ab"
    by blast+
  from MessageCache_get_ttl_strict [OF p d, of 30000] t2
  have b: "MessageCache_get ''room1-a'' 30000 cache_ab =
              (Some (messages entry_a),
               cache_ab\<lparr>cache := Map_delete ''room1-a'' (cache cache_ab)
                                    @ [(''room1-a'', entry_a\<lparr>lastFetch := 30000\<rparr>)],
                 stats := (stats cache_ab)\<lparr>hits := hits (stats cache_ab) + 1\<rparr>\<rparr>)"
    by blast
  have md: "Map_delete ''room1-a'' (cache cache_ab) = [(''room2-b'', entry_b)]"
    by (simp add: cache_ab_def Map_delete_def)
  have st: "stats cache_ab = \<lparr>hits = 0, misses = 0, evictions = 0\<rparr>"
    by (simp add: cache_ab_def)
  have sz: "getStats_size cache_ab = 2"
    by (simp add: getStats_size_def cache_ab_def)
  have m: "messages entry_a = [1]"
    by (simp add: entry_a_def)
  show ?thesis
    using p d t1 t2 a a2 b by (simp add: md st sz m)
qed


section \<open>\<open>MessageCache.set\<close> and \<open>evictLRU\<close>\<close>

lemma evictLRU_loop_keep:
  "\<forall>x\<in>set es. t \<le> lastFetch (snd x) \<Longrightarrow> evictLRU_loop es (k, t) = (k, t)"
  by (induction es) auto

lemma evictLRU_loop_pick:
  "\<forall>x\<in>set pre. lastFetch e < lastFetch (snd x) \<Longrightarrow>
   \<forall>x\<in>set post. lastFetch e \<le> lastFetch (snd x) \<Longrightarrow>
   lastFetch e < t0 \<Longrightarrow>
   evictLRU_loop (pre @ (k, e) # post) (k0, t0) = (k, lastFetch e)"
proof (induction pre arbitrary: k0 t0)
  case Nil
  then show ?case by (simp add: evictLRU_loop_keep)
next
  case (Cons p pre)
  obtain kp ep where p: "p = (kp, ep)" by (cases p)
  from Cons.prems have lt: "lastFetch e < lastFetch ep" by (simp add: p)
  from Cons.prems have rest: "\<forall>x\<in>set pre. lastFetch e < lastFetch (snd x)" by simp
  show ?case
  proof (cases "lastFetch ep < t0")
    case True
    then show ?thesis
      using Cons.IH [OF rest Cons.prems(2) lt] by (simp add: p)
  next
    case False
    then show ?thesis
      using Cons.IH [OF rest Cons.prems(2) Cons.prems(3)] by (simp add: p)
  qed
qed

text \<open>
  When no entry was fetched before the clock reading of \<open>evictLRU\<close>, the loop finds no
  key and nothing is evicted.
\<close>

lemma evictLRU_nothing_older:
  "\<forall>x\<in>set (cache c). now \<le> lastFetch (snd x) \<Longrightarrow> evictLRU now c = c"
  by (simp add: evictLRU_def evictLRU_loop_keep)

text \<open>
  C5, as the claim states it, fails: \<open>set\<close> tests only the size, so a \<open>set\<close> of a key
  that is already present evicts too. In the full cache of capacity two, setting the
  present key \<open>room2-b\<close> evicts \<open>room1-a\<close>, counts an eviction and leaves one entry.
\<close>

theorem MessageCache_set_existing_key_counterexample:
  "Map_get (cache cache_ab) ''room2-b'' = Some entry_b
   \<and> int (getStats_size cache_ab) = maxSize cache_ab
   \<and> evictions (stats (MessageCache_set ''room2-b'' [3] ''qc'' 10 10 cache_ab)) = 1
   \<and> cache (MessageCache_set ''room2-b'' [3] ''qc'' 10 10 cache_ab) = [(''room2-b'', entry_c)]
   \<and> int (getStats_size (MessageCache_set ''room2-b'' [3] ''qc'' 10 10 cache_ab))
       \<noteq> maxSize cache_ab"
  by (simp add: cache_ab_def entry_a_def entry_b_def entry_c_def MessageCache_set_def
      evictLRU_def Map_delete_def Map_get_def getStats_size_def)

text \<open>
  C5, amended. When the cache is at capacity (\<open>size >= maxSize\<close>), \<open>set\<close> runs
  \<open>evictLRU\<close> for a new key and for a present key alike. If the entry \<open>(k, e)\<close> is the
  first in iteration order among those with the smallest \<open>lastFetch\<close>, that \<open>lastFetch\<close>
  is earlier than the clock reading of \<open>evictLRU\<close> and \<open>k\<close> is not the empty string,
  then exactly that entry is evicted and \<open>evictions\<close> goes up by one, after which the
  key is inserted or overwritten; the size is then the size before for a key that is
  not among the remaining entries (so the capacity, when the cache was exactly full),
  and one less for a key that is. Below capacity \<open>set\<close> evicts nothing.
\<close>

theorem MessageCache_set_evicts_lru:
  "(maxSize c \<le> int (length (cache c))
      \<and> distinct (map fst (cache c))
      \<and> cache c = pre @ (k, e) # post
      \<and> (\<forall>x\<in>set pre. lastFetch e < lastFetch (snd x))
      \<and> (\<forall>x\<in>set post. lastFetch e \<le> lastFetch (snd x))
      \<and> lastFetch e < now' \<and> k \<noteq> ''''
    \<longrightarrow> MessageCache_set cacheKey msgs q now now' c =
           c\<lparr>cache := Map_set cacheKey
                          \<lparr>messages = msgs, timestamp = now, lastFetch = now, query = q\<rparr>
                          (pre @ post),
             stats := (stats c)\<lparr>evictions := evictions (stats c) + 1\<rparr>\<rparr>
        \<and> getStats_size (MessageCache_set cacheKey msgs q now now' c) =
             (if cacheKey \<in> fst ` set (pre @ post)
              then getStats_size c - 1 else getStats_size c))
   \<and> (int (length (cache c)) < maxSize c
    \<longrightarrow> MessageCache_set cacheKey msgs q now now' c =
           c\<lparr>cache := Map_set cacheKey
                          \<lparr>messages = msgs, timestamp = now, lastFetch = now, query = q\<rparr>
                          (cache c)\<rparr>)"
proof (intro conjI impI; (elim conjE)?)
  assume full: "maxSize c \<le> int (length (cache c))"
    and dist: "distinct (map fst (cache c))"
    and split: "cache c = pre @ (k, e) # post"
    and before: "\<forall>x\<in>set pre. lastFetch e < lastFetch (snd x)"
    and after: "\<forall>x\<in>set post. lastFetch e \<le> lastFetch (snd x)"
    and due: "lastFetch e < now'"
    and key: "k \<noteq> ''''"
  have pick: "evictLRU_loop (cache c) ('''', now') = (k, lastFetch e)"
    unfolding split using before after due by (rule evictLRU_loop_pick)
  have del: "Map_delete k (cache c) = pre @ post"
    using dist unfolding split by (rule Map_delete_split)
  have ev: "evictLRU now' c =
              c\<lparr>cache := pre @ post,
                stats := (stats c)\<lparr>evictions := evictions (stats c) + 1\<rparr>\<rparr>"
    by (simp add: evictLRU_def pick key del)
  show eq: "MessageCache_set cacheKey msgs q now now' c =
           c\<lparr>cache := Map_set cacheKey
                          \<lparr>messages = msgs, timestamp = now, lastFetch = now, query = q\<rparr>
                          (pre @ post),
             stats := (stats c)\<lparr>evictions := evictions (stats c) + 1\<rparr>\<rparr>"
    using full by (simp add: MessageCache_set_def ev)
  have len: "length (cache c) = Suc (length (pre @ post))"
    by (simp add: split)
  show "getStats_size (MessageCache_set cacheKey msgs q now now' c) =
             (if cacheKey \<in> fst ` set (pre @ post)
              then getStats_size c - 1 else getStats_size c)"
    unfolding eq by (simp add: getStats_size_def Map_set_length len)
next
  assume "int (length (cache c)) < maxSize c"
  then show "MessageCache_set cacheKey msgs q now now' c =
           c\<lparr>cache := Map_set cacheKey
                          \<lparr>messages = msgs, timestamp = now, lastFetch = now, query = q\<rparr>
                          (cache c)\<rparr>"
    by (simp add: MessageCache_set_def)
qed

text \<open>
  In the full cache of capacity two, setting the new key \<open>room3-c\<close> at time 10 evicts
  \<open>room1-a\<close>, the entry fetched longest ago, and the size is the capacity again; in the
  cache of one entry and capacity fifty nothing is evicted.
\<close>

theorem MessageCache_set_evicts_lru_witness:
  "maxSize cache_ab \<le> int (length (cache cache_ab))
   \<and> distinct (map fst (cache cache_ab))
   \<and> cache cache_ab = [] @ (''room1-a'', entry_a) # [(''room2-b'', entry_b)]
   \<and> lastFetch entry_a \<le> lastFetch entry_b
   \<and> lastFetch entry_a < 10
   \<and> MessageCache_set ''room3-c'' [3] ''qc'' 10 10 cache_ab =
        cache_ab\<lparr>cache := [(''room2-b'', entry_b), (''room3-c'', entry_c)],
                  stats := \<lparr>hits = 0, misses = 0, evictions = 1\<rparr>\<rparr>
   \<and> int (getStats_size (MessageCache_set ''room3-c'' [3] ''qc'' 10 10 cache_ab))
       = maxSize cache_ab
   \<and> int (length (cache cache_a)) < maxSize cache_a
   \<and> MessageCache_set ''room3-c'' [3] ''qc'' 10 10 cache_a =
        cache_a\<lparr>cache := [(''room1-a'', entry_a), (''room3-c'', entry_c)]\<rparr>"
proof -
  have full: "maxSize cache_ab \<le> int (length (cache cache_ab))"
    and dist: "distinct (map fst (cache cache_ab))"
    and split: "cache cache_ab = [] @ (''room1-a'', entry_a) # [(''room2-b'', entry_b)]"
    by (simp_all add: cache_ab_def)
  have before: "\<forall>x\<in>set []. lastFetch entry_a < lastFetch (snd (x :: string \<times> nat CacheEntry))"
    by simp
  have le: "lastFetch entry_a \<le> lastFetch entry_b"
    and due: "lastFetch entry_a < 10"
    by (simp_all add: entry_a_def entry_b_def)
  from le have after: "\<forall>x\<in>set [(''room2-b'', entry_b)]. lastFetch entry_a \<le> lastFetch (snd x)"
    by simp
  have key: "''room1-a'' \<noteq> ''''"
    by simp
  have under: "int (length (cache cache_a)) < maxSize cache_a"
    by (simp add: cache_a_def)
  have new: "\<lparr>messages = [3], timestamp = 10, lastFetch = 10, query = ''qc''\<rparr> = entry_c"
    by (simp add: entry_c_def)
  from MessageCache_set_evicts_lru
         [of cache_ab "[]" "''room1-a''" entry_a "[(''room2-b'', entry_b)]" 10
             "''room3-c''" "[3]" "''qc''" 10]
       full dist split before after due key
  have a: "MessageCache_set ''room3-c'' [3] ''qc'' 10 10 cache_ab =
             cache_ab\<lparr>cache := Map_set ''room3-c'' entry_c ([] @ [(''room2-b'', entry_b)]),
               stats := (stats cache_ab)\<lparr>evictions := evictions (stats cache_ab) + 1\<rparr>\<rparr>"
    unfolding new by blast
  from MessageCache_set_evicts_lru
         [of cache_a "[]" "''room1-a''" entry_a "[]" 10 "''room3-c''" "[3]" "''qc''" 10]
       under
  have b: "MessageCache_set ''room3-c'' [3] ''qc'' 10 10 cache_a =
             cache_a\<lparr>cache := Map_set ''room3-c'' entry_c (cache cache_a)\<rparr>"
    unfolding new by blast
  have st: "stats cache_ab = \<lparr>hits = 0, misses = 0, evictions = 0\<rparr>"
    and mx: "maxSize cache_ab = 2"
    by (simp_all add: cache_ab_def)
  have ca: "cache cache_a = [(''room1-a'', entry_a)]"
    by (simp add: cache_a_def)
  show ?thesis
    using full dist split le due under by (simp add: a b st mx ca getStats_size_def)
qed


section \<open>The query cache of \<open>useMessages\<close>\<close>

lemma useMessages_query_hit:
  "Map_get qc k = Some v \<Longrightarrow> useMessages_query k nq qc = (v, qc)"
  by (simp add: useMessages_query_def)

lemma useMessages_query_miss:
  assumes miss: "Map_get qc k = None"
  shows "useMessages_query k nq qc =
           (nq, if length qc \<ge> 100
                then Map_delete (fst (hd (qc @ [(k, nq)]))) (qc @ [(k, nq)])
                else qc @ [(k, nq)])"
proof -
  from miss have "k \<notin> fst ` set qc"
    by (simp add: Map_get_def map_of_None_notin)
  then have app: "Map_set k nq qc = qc @ [(k, nq)]"
    by (rule Map_set_absent)
  have "(case qc @ [(k, nq)] of [] \<Rightarrow> qc @ [(k, nq)]
         | (firstKey, v) # rest \<Rightarrow> Map_delete firstKey (qc @ [(k, nq)]))
        = Map_delete (fst (hd (qc @ [(k, nq)]))) (qc @ [(k, nq)])"
    by (cases qc) auto
  with miss show ?thesis
    by (auto simp: useMessages_query_def app Let_def)
qed

lemma useMessages_query_bound:
  "length qc \<le> 100 \<Longrightarrow> length (snd (useMessages_query k nq qc)) \<le> 100"
proof (cases "Map_get qc k")
  case (Some v)
  assume "length qc \<le> 100"
  with Some show ?thesis by (simp add: useMessages_query_def)
next
  case None
  assume le: "length qc \<le> 100"
  have "length (Map_delete (fst (hd (qc @ [(k, nq)]))) (qc @ [(k, nq)]))
          < length (qc @ [(k, nq)])"
    by (rule Map_delete_hd_length) simp
  with le show ?thesis
    by (simp add: useMessages_query_miss [OF None])
qed

lemma renders_bound: "length qc \<le> 100 \<Longrightarrow> length (renders reqs qc) \<le> 100"
proof (induction reqs arbitrary: qc)
  case Nil
  then show ?case by simp
next
  case (Cons r reqs)
  obtain k nq where r: "r = (k, nq)" by (cases r)
  show ?case unfolding r
    by (simp add: Cons.IH useMessages_query_bound Cons.prems)
qed

lemma useMessages_query_distinct:
  assumes dist: "distinct (map fst qc)"
  shows "distinct (map fst (snd (useMessages_query k nq qc)))"
proof (cases "Map_get qc k")
  case (Some v)
  with dist show ?thesis by (simp add: useMessages_query_def)
next
  case None
  then have notin: "k \<notin> fst ` set qc"
    by (simp add: Map_get_def map_of_None_notin)
  with dist have d: "distinct (map fst (qc @ [(k, nq)]))"
    by auto
  have "distinct (map fst (Map_delete (fst (hd (qc @ [(k, nq)]))) (qc @ [(k, nq)])))"
    unfolding Map_delete_def using d by (simp only: distinct_map_filter)
  with d show ?thesis
    by (simp add: useMessages_query_miss [OF None])
qed

lemma renders_distinct: "distinct (map fst qc) \<Longrightarrow> distinct (map fst (renders reqs qc))"
proof (induction reqs arbitrary: qc)
  case Nil
  then show ?case by simp
next
  case (Cons r reqs)
  obtain k nq where r: "r = (k, nq)" by (cases r)
  show ?case unfolding r
    by (simp add: Cons.IH useMessages_query_distinct Cons.prems)
qed

lemma useMessages_query_fifo:
  assumes miss: "Map_get qc k = None" and full: "length qc = 100"
    and dist: "distinct (map fst qc)"
  shows "useMessages_query k nq qc = (nq, tl qc @ [(k, nq)])"
proof -
  from miss have notin: "k \<notin> fst ` set qc"
    by (simp add: Map_get_def map_of_None_notin)
  from full obtain k0 v0 rest where qc: "qc = (k0, v0) # rest"
    by (cases qc) auto
  from dist notin have "distinct (map fst ([] @ (k0, v0) # (rest @ [(k, nq)])))"
    by (auto simp: qc)
  then have "Map_delete k0 ([] @ (k0, v0) # (rest @ [(k, nq)])) = [] @ (rest @ [(k, nq)])"
    by (rule Map_delete_split)
  then have "Map_delete (fst (hd (qc @ [(k, nq)]))) (qc @ [(k, nq)]) = tl qc @ [(k, nq)]"
    by (simp add: qc)
  with full show ?thesis
    by (simp add: useMessages_query_miss [OF miss])
qed

text \<open>
  C9. Starting from the empty module-level map, after any sequence of renders the query
  cache holds at most 100 entries, under distinct keys. On a hit the cached selector is
  returned, whatever selector the render would have built, and the map, its order
  included, is left as it was. On a miss at 100 entries the new key goes to the end and
  the entry removed is the head of the map, the key inserted longest ago; hits in
  between have not moved it. Below 100 entries a miss only appends.
\<close>

theorem queryCache_bounded_fifo:
  "length (renders reqs []) \<le> 100
   \<and> distinct (map fst (renders reqs ([] :: (string, 'q) jsmap)))
   \<and> (\<forall>v. Map_get qc k = Some v \<longrightarrow> useMessages_query k nq qc = (v, qc))
   \<and> (Map_get qc k = None \<and> length qc = 100 \<and> distinct (map fst qc)
        \<longrightarrow> useMessages_query k nq qc = (nq, tl qc @ [(k, nq)]))
   \<and> (Map_get qc k = None \<and> length qc < 100
        \<longrightarrow> useMessages_query k nq qc = (nq, qc @ [(k, nq)]))"
proof (intro conjI allI impI; (elim conjE)?)
  show "length (renders reqs []) \<le> 100"
    by (rule renders_bound) simp
  show "distinct (map fst (renders reqs ([] :: (string, 'q) jsmap)))"
    by (rule renders_distinct) simp
next
  fix v assume "Map_get qc k = Some v"
  then show "useMessages_query k nq qc = (v, qc)"
    by (rule useMessages_query_hit)
next
  assume "Map_get qc k = None" and "length qc = 100" and "distinct (map fst qc)"
  then show "useMessages_query k nq qc = (nq, tl qc @ [(k, nq)])"
    by (rule useMessages_query_fifo)
next
  assume miss: "Map_get qc k = None" and "length qc < 100"
  then show "useMessages_query k nq qc = (nq, qc @ [(k, nq)])"
    by (simp add: useMessages_query_miss [OF miss])
qed

lemma queryCache100_keys: "map fst queryCache100 = map (\<lambda>n. replicate (Suc n) CHR ''a'') [0..<100]"
  by (simp add: queryCache100_def comp_def)

lemma queryCache100_distinct: "distinct (map fst queryCache100)"
proof -
  have "inj_on (\<lambda>n. replicate (Suc n) CHR ''a'') (set [0..<100])"
  proof (rule inj_onI)
    fix x y :: nat
    assume "replicate (Suc x) CHR ''a'' = replicate (Suc y) CHR ''a''"
    then have "length (replicate (Suc x) CHR ''a'') = length (replicate (Suc y) CHR ''a'')"
      by (rule arg_cong)
    then show "x = y" by simp
  qed
  then show ?thesis
    unfolding queryCache100_keys by (simp add: distinct_map)
qed

lemma queryCache100_miss: "Map_get queryCache100 ''b'' = None"
proof -
  have "''b'' \<notin> set (map (\<lambda>n. replicate (Suc n) CHR ''a'') [0..<100])"
    by auto
  then have "''b'' \<notin> fst ` set queryCache100"
    unfolding queryCache100_keys [symmetric] by simp
  then show ?thesis
    by (simp add: Map_get_def map_of_None_notin)
qed

lemma queryCache100_hit: "Map_get queryCache100 ''a'' = Some 0"
proof -
  have "(''a'', 0 :: nat) \<in> (\<lambda>n. (replicate (Suc n) CHR ''a'', n)) ` {0..<100}"
    by (rule image_eqI [where x = 0]) simp_all
  then have "(''a'', 0) \<in> set queryCache100"
    by (simp add: queryCache100_def)
  with queryCache100_distinct show ?thesis
    by (simp add: Map_get_def)
qed

text \<open>
  At a hundred entries \<open>a\<close>, \<open>aa\<close>, ... a render under the oldest key \<open>a\<close> gets the
  cached 0 although it would have built 7, and leaves the map alone; the next render,
  under the new key \<open>b\<close>, drops that same entry \<open>a\<close>, the one used last, and appends
  \<open>b\<close>; a first render on the empty map appends its key.
\<close>

theorem queryCache_bounded_fifo_witness:
  "length (renders [(''x'', 1), (''y'', 2), (''x'', 3)] ([] :: (string, nat) jsmap)) \<le> 100
   \<and> Map_get queryCache100 ''a'' = Some 0
   \<and> useMessages_query ''a'' 7 queryCache100 = (0, queryCache100)
   \<and> Map_get queryCache100 ''b'' = None
   \<and> length queryCache100 = 100
   \<and> distinct (map fst queryCache100)
   \<and> hd queryCache100 = (''a'', 0)
   \<and> useMessages_query ''b'' 7 queryCache100 = (7, tl queryCache100 @ [(''b'', 7)])
   \<and> Map_get ([] :: (string, nat) jsmap) ''b'' = None
   \<and> useMessages_query ''b'' 7 [] = (7, [(''b'', 7 :: nat)])"
proof -
  have len: "length queryCache100 = 100"
    by (simp add: queryCache100_def)
  have hd: "hd queryCache100 = (''a'', 0)"
    by (simp add: queryCache100_def upt_rec hd_map)
  have empty: "Map_get ([] :: (string, nat) jsmap) ''b'' = None"
    by (simp add: Map_get_def)
  from queryCache_bounded_fifo [of "[(''x'', 1), (''y'', 2), (''x'', 3)]" queryCache100 "''a''" 7]
       queryCache100_hit
  have a: "length (renders [(''x'', 1), (''y'', 2), (''x'', 3)] ([] :: (string, nat) jsmap)) \<le> 100"
    and b: "useMessages_query ''a'' 7 queryCache100 = (0, queryCache100)"
    by blast+
  from queryCache_bounded_fifo [of "[]" queryCache100 "''b''" 7]
       queryCache100_miss len queryCache100_distinct
  have c: "useMessages_query ''b'' 7 queryCache100 = (7, tl queryCache100 @ [(''b'', 7)])"
    by blast
  from queryCache_bounded_fifo [of "[]" "[] :: (string, nat) jsmap" "''b''" 7] empty
  have d: "useMessages_query ''b'' 7 [] = (7, [] @ [(''b'', 7 :: nat)])"
    by simp
  show ?thesis
    using a b c d queryCache100_hit queryCache100_miss len queryCache100_distinct hd empty
    by simp
qed


section \<open>\<open>ActivityTracker\<close>: the events alternate\<close>

lemma alternates_snoc:
  "alternates a (evs @ [ev]) \<longleftrightarrow>
     alternates a evs \<and> ev = (if a = even (length evs) then Inactive else Active)"
  by (induction evs arbitrary: a) auto

lemma alternates_distinct_adj: "alternates a evs \<Longrightarrow> distinct_adj evs"
  by (induction evs arbitrary: a) (auto simp: distinct_adj_Cons neq_Nil_conv)

lemma consistent_onUserInactive: "consistent s \<Longrightarrow> consistent (onUserInactive s)"
  by (auto simp: consistent_def onUserInactive_def ActivityTracker_emit_def alternates_snoc)

lemma consistent_onActivity: "consistent s \<Longrightarrow> consistent (onActivity now s)"
  by (auto simp: consistent_def onActivity_def ActivityTracker_emit_def
      resetActivityTracking_def setTimeout_due_def alternates_snoc Let_def)

lemma consistent_fields:
  "consistent (s\<lparr>inactiveTimer := t\<rparr>) = consistent s"
  "consistent (s\<lparr>blurChecks := b\<rparr>) = consistent s"
  "consistent (s\<lparr>inactiveTime := i\<rparr>) = consistent s"
  by (simp_all add: consistent_def)

lemma consistent_deliver: "consistent s \<Longrightarrow> consistent (deliver now sig s)"
proof (cases sig)
  case Activity
  assume "consistent s"
  then show ?thesis unfolding Activity by (simp add: consistent_onActivity)
next
  case (VisibilityChange hidden)
  assume "consistent s"
  then show ?thesis unfolding VisibilityChange
    by (simp add: consistent_onActivity consistent_onUserInactive)
next
  case Blur
  assume "consistent s"
  then show ?thesis unfolding Blur by (simp add: consistent_fields)
next
  case InactiveTimerFires
  assume "consistent s"
  then show ?thesis unfolding InactiveTimerFires
    by (simp add: consistent_onUserInactive consistent_fields split: option.splits)
next
  case BlurCheckFires
  assume "consistent s"
  then show ?thesis unfolding BlurCheckFires
    by (simp add: consistent_onUserInactive consistent_fields Let_def split: list.splits)
next
  case (UpdateInactiveTime time)
  assume "consistent s"
  then show ?thesis unfolding UpdateInactiveTime
    by (simp add: updateInactiveTime_def resetActivityTracking_def setTimeout_due_def consistent_fields)
qed

lemma consistent_run: "consistent s \<Longrightarrow> consistent (ActivityTracker_run sigs s)"
  by (induction sigs arbitrary: s) (auto simp: consistent_deliver)

lemma consistent_new: "consistent (ActivityTracker_new now t)"
  by (simp add: consistent_def ActivityTracker_new_def resetActivityTracking_def setTimeout_due_def)

text \<open>
  C10. Whatever activity signals, visibility changes, blurs, timer firings, deferred
  blur checks and threshold updates reach a tracker after its construction, in whatever
  order and at whatever times, the events it has emitted alternate, starting with
  \<open>Inactive\<close>: no two equal events are adjacent, so there are never two \<open>Inactive\<close>
  without an \<open>Active\<close> between them, and \<open>Active\<close> is never emitted by a tracker that is
  active. The tracker is active exactly when it has emitted an even number of events.
\<close>

theorem ActivityTracker_events_alternate:
  "alternates True (emitted (ActivityTracker_run sigs (ActivityTracker_new now t)))
   \<and> distinct_adj (emitted (ActivityTracker_run sigs (ActivityTracker_new now t)))
   \<and> isUserActive (ActivityTracker_run sigs (ActivityTracker_new now t))
       = even (length (emitted (ActivityTracker_run sigs (ActivityTracker_new now t))))"
proof -
  have "consistent (ActivityTracker_run sigs (ActivityTracker_new now t))"
    by (rule consistent_run) (rule consistent_new)
  then show ?thesis
    by (auto simp: consistent_def dest: alternates_distinct_adj)
qed

text \<open>
  A run in which the tab is hidden, the inactivity timer then comes due, the window
  loses focus, the user moves the mouse, the deferred blur check runs and the re-armed
  timer comes due: three attempts at \<open>Inactive\<close> before the activity give one event.
\<close>

theorem ActivityTracker_events_alternate_witness:
  "emitted (ActivityTracker_run
      [(10, VisibilityChange True), (1000, InactiveTimerFires), (1001, Blur),
       (2002, BlurCheckFires), (2500, Activity), (2600, Activity), (3500, InactiveTimerFires)]
      (ActivityTracker_new 0 1000)) = [Inactive, Active, Inactive]
   \<and> alternates True [Inactive, Active, Inactive]"
proof -
  have run: "emitted (ActivityTracker_run
      [(10, VisibilityChange True), (1000, InactiveTimerFires), (1001, Blur),
       (2002, BlurCheckFires), (2500, Activity), (2600, Activity), (3500, InactiveTimerFires)]
      (ActivityTracker_new 0 1000)) = [Inactive, Active, Inactive]"
    by (simp add: ActivityTracker_new_def resetActivityTracking_def setTimeout_due_def onActivity_def
        onUserInactive_def ActivityTracker_emit_def)
  from ActivityTracker_events_alternate
         [of "[(10, VisibilityChange True), (1000, InactiveTimerFires), (1001, Blur),
               (2002, BlurCheckFires), (2500, Activity), (2600, Activity),
               (3500, InactiveTimerFires)]" 0 1000]
  show ?thesis
    unfolding run by simp
qed


section \<open>\<open>ActivityTracker\<close>: the inactivity timer\<close>

lemma onActivity_while_active:
  "isUserActive s \<Longrightarrow> onActivity now s = s\<lparr>lastActivity := now\<rparr>"
  by (simp add: onActivity_def)

lemma activity_keeps_timer:
  "isUserActive s \<Longrightarrow>
   ActivityTracker_run (map (\<lambda>t. (t, Activity)) ts) s
     = (if ts = [] then s else s\<lparr>lastActivity := last ts\<rparr>)"
proof (induction ts arbitrary: s)
  case Nil
  then show ?case by simp
next
  case (Cons t ts)
  have "isUserActive (s\<lparr>lastActivity := t\<rparr>)"
    using Cons.prems by simp
  from Cons.IH [OF this] Cons.prems show ?case
    by (simp add: onActivity_while_active)
qed

text \<open>
  While the tracker is active, activity signals at any times leave the pending timer
  as it is, and the timer emits \<open>Inactive\<close> when it comes due.
\<close>

lemma timer_fires_through_activity:
  assumes active: "isUserActive s" and pending: "inactiveTimer s = Some due"
    and late: "due \<le> now"
  shows "emitted (deliver now InactiveTimerFires
                    (ActivityTracker_run (map (\<lambda>t. (t, Activity)) ts) s))
           = emitted s @ [Inactive]"
  using assms
  by (simp add: activity_keeps_timer onUserInactive_def ActivityTracker_emit_def)

text \<open>
  C1 fails on the code. \<open>onActivity\<close> re-arms the timer only on the way out of the
  inactive state, so the timer a tracker was constructed with runs through the user's
  activity. With the default threshold of 300000 ms: constructed at 0, a signal at
  299000 (which sets \<open>lastActivity\<close> and leaves the timer due at 300000), the timer
  firing at 300000 emits \<open>Inactive\<close>, 1000 ms after the last signal.
\<close>

theorem ActivityTracker_timer_ignores_activity:
  "inactiveTimer (ActivityTracker_run [(299000, Activity)] (ActivityTracker_new 0 300000))
     = Some 300000
   \<and> lastActivity (ActivityTracker_run [(299000, Activity)] (ActivityTracker_new 0 300000))
     = 299000
   \<and> emitted (ActivityTracker_run [(299000, Activity)] (ActivityTracker_new 0 300000)) = []
   \<and> emitted (ActivityTracker_run [(299000, Activity), (300000, InactiveTimerFires)]
                (ActivityTracker_new 0 300000)) = [Inactive]
   \<and> 300000 - lastActivity (ActivityTracker_run
         [(299000, Activity), (300000, InactiveTimerFires)] (ActivityTracker_new 0 300000))
       < inactiveTime (ActivityTracker_run
         [(299000, Activity), (300000, InactiveTimerFires)] (ActivityTracker_new 0 300000))"
  by (simp add: ActivityTracker_new_def resetActivityTracking_def setTimeout_due_def onActivity_def
      onUserInactive_def ActivityTracker_emit_def)

text \<open>
  C4, as the claim states it, fails: a tracker constructed at 0 with threshold 1000
  has \<open>lastActivity = 0\<close>; \<open>updateInactiveTime(5000)\<close> called at 500 makes the timer due
  at 5500, which is the call time plus the new threshold, not \<open>lastActivity + 5000\<close>.
\<close>

theorem updateInactiveTime_counterexample:
  "lastActivity (updateInactiveTime 5000 500 (ActivityTracker_new 0 1000)) = 0
   \<and> inactiveTimer (updateInactiveTime 5000 500 (ActivityTracker_new 0 1000)) = Some 5500
   \<and> inactiveTimer (updateInactiveTime 5000 500 (ActivityTracker_new 0 1000))
       \<noteq> Some (lastActivity (ActivityTracker_new 0 1000) + 5000)"
  by (simp add: updateInactiveTime_def ActivityTracker_new_def resetActivityTracking_def setTimeout_due_def)

text \<open>
  C4, amended. For a threshold \<open>ms\<close> that the runtime's timer can hold, from 0 to
  2147483647, and in every state, with or without a pending timer,
  \<open>updateInactiveTime(ms)\<close> called at time \<open>now\<close> stores the new threshold and replaces
  the pending timer by one that is due at \<open>now + ms\<close>: the countdown starts again at
  the call. \<open>lastActivity\<close> is neither read nor written, the activity state stays and
  no event is emitted.
\<close>

theorem updateInactiveTime_restarts_countdown:
  assumes "0 \<le> ms" and "ms \<le> 2147483647"
  shows "inactiveTimer (updateInactiveTime ms now s) = Some (now + ms)
   \<and> inactiveTime (updateInactiveTime ms now s) = ms
   \<and> lastActivity (updateInactiveTime ms now s) = lastActivity s
   \<and> isUserActive (updateInactiveTime ms now s) = isUserActive s
   \<and> emitted (updateInactiveTime ms now s) = emitted s
   \<and> updateInactiveTime ms now (s\<lparr>lastActivity := la\<rparr>)
       = (updateInactiveTime ms now s)\<lparr>lastActivity := la\<rparr>"
  using assms
  by (simp add: updateInactiveTime_def resetActivityTracking_def setTimeout_due_def)

theorem updateInactiveTime_restarts_countdown_witness:
  "(0 :: int) \<le> 5000 \<and> (5000 :: int) \<le> 2147483647
   \<and> inactiveTimer (ActivityTracker_new 0 1000) = Some 1000
   \<and> inactiveTimer (updateInactiveTime 5000 500 (ActivityTracker_new 0 1000)) = Some 5500
   \<and> inactiveTime (updateInactiveTime 5000 500 (ActivityTracker_new 0 1000)) = 5000
   \<and> lastActivity (updateInactiveTime 5000 500 (ActivityTracker_new 0 1000)) = 0"
proof -
  have lo: "(0 :: int) \<le> 5000" and hi: "(5000 :: int) \<le> 2147483647"
    by simp_all
  have "inactiveTimer (ActivityTracker_new 0 1000) = Some 1000"
    and "lastActivity (ActivityTracker_new 0 1000) = 0"
    by (simp_all add: ActivityTracker_new_def resetActivityTracking_def setTimeout_due_def)
  with updateInactiveTime_restarts_countdown [OF lo hi, of 500 "ActivityTracker_new 0 1000"]
  show ?thesis
    by simp
qed

text \<open>
  A threshold that the timer cannot hold is stored all the same, and the timer is due
  at the call.
\<close>

lemma updateInactiveTime_out_of_range:
  "ms < 0 \<or> 2147483647 < ms \<Longrightarrow>
   inactiveTimer (updateInactiveTime ms now s) = Some now
   \<and> inactiveTime (updateInactiveTime ms now s) = ms"
  by (auto simp: updateInactiveTime_def resetActivityTracking_def setTimeout_due_def)


section \<open>\<open>RoomPreserver.restore\<close>\<close>

text \<open>The held snapshot is the one \<open>preserve\<close> took in room \<open>A\<close>.\<close>

lemma snapshot_A_taken:
  "RoomPreserver_preserve rooms_captured \<lparr>preservedData = None\<rparr> = (Some snapshot_A, preserver_A)"
  by (simp add: RoomPreserver_preserve_def rooms_captured_def store_captured_def
      snapshot_A_def preserver_A_def Let_def)

text \<open>
  C7, as the claim states it, fails: \<open>restore\<close> returns no value. With the snapshot of
  room \<open>A\<close> held and room \<open>B\<close> open it resolves to \<open>undefined\<close>, not to \<open>false\<close>, and it
  resolves to the same \<open>undefined\<close> when room \<open>A\<close> is open and the values are applied.
\<close>

theorem RoomPreserver_restore_counterexample:
  "opened rooms_at_B \<noteq> Some (preserved_rid snapshot_A)
   \<and> fst (RoomPreserver_restore rooms_at_B preserver_A) \<noteq> Boolean False
   \<and> opened rooms_at_A = Some (preserved_rid snapshot_A)
   \<and> fst (RoomPreserver_restore rooms_at_A preserver_A)
       = fst (RoomPreserver_restore rooms_at_B preserver_A)"
  by (simp add: RoomPreserver_restore_def rooms_at_A_def rooms_at_B_def preserver_A_def
      snapshot_A_def store_A_def Let_def)

text \<open>
  C7, amended. \<open>restore\<close> returns no value (it resolves to \<open>undefined\<close> in every case)
  and always empties the held snapshot. It leaves the room manager and every view
  store unchanged when no snapshot is held or the open room id differs from the
  snapshot's room id; when the open room is the snapshot's room and that room has a
  store, it updates that one store with the snapshot's \<open>scroll\<close>, \<open>lastTime\<close> and
  \<open>atBottom\<close> and touches nothing else.
\<close>

theorem RoomPreserver_restore_guarded:
  "fst (RoomPreserver_restore rm rp) = Undefined
   \<and> preservedData (snd (snd (RoomPreserver_restore rm rp))) = None
   \<and> ((\<forall>d. preservedData rp = Some d \<longrightarrow> opened rm \<noteq> Some (preserved_rid d))
        \<longrightarrow> fst (snd (RoomPreserver_restore rm rp)) = rm)
   \<and> (\<forall>d store. preservedData rp = Some d \<and> opened rm = Some (preserved_rid d)
          \<and> getStore rm (preserved_rid d) = Some store
        \<longrightarrow> fst (snd (RoomPreserver_restore rm rp)) =
              rm\<lparr>getStore := (getStore rm)
                   (preserved_rid d \<mapsto>
                      RoomStore_update (preserved_scroll d) (preserved_lastTime d)
                        (preserved_atBottom d) store)\<rparr>)"
  by (auto simp: RoomPreserver_restore_def Let_def split: option.splits)

text \<open>
  With the snapshot of room \<open>A\<close> held: while room \<open>B\<close> is open nothing changes; while
  room \<open>A\<close> is open its store takes the snapshot's three values.
\<close>

theorem RoomPreserver_restore_guarded_witness:
  "preservedData preserver_A = Some snapshot_A
   \<and> opened rooms_at_B \<noteq> Some (preserved_rid snapshot_A)
   \<and> fst (snd (RoomPreserver_restore rooms_at_B preserver_A)) = rooms_at_B
   \<and> opened rooms_at_A = Some (preserved_rid snapshot_A)
   \<and> getStore rooms_at_A (preserved_rid snapshot_A) = Some store_A
   \<and> getStore (fst (snd (RoomPreserver_restore rooms_at_A preserver_A))) ''A''
       = Some \<lparr>scroll = Some 120, lastTime = Some 1000, atBottom = Some False\<rparr>
   \<and> preservedData (snd (snd (RoomPreserver_restore rooms_at_A preserver_A))) = None"
proof -
  have held: "preservedData preserver_A = Some snapshot_A"
    by (simp add: preserver_A_def)
  have other: "opened rooms_at_B \<noteq> Some (preserved_rid snapshot_A)"
    by (simp add: rooms_at_B_def snapshot_A_def)
  have same: "opened rooms_at_A = Some (preserved_rid snapshot_A)"
    and store: "getStore rooms_at_A (preserved_rid snapshot_A) = Some store_A"
    by (simp_all add: rooms_at_A_def snapshot_A_def)
  from held other
  have "\<forall>d. preservedData preserver_A = Some d \<longrightarrow> opened rooms_at_B \<noteq> Some (preserved_rid d)"
    by simp
  with RoomPreserver_restore_guarded [of rooms_at_B preserver_A]
  have b: "fst (snd (RoomPreserver_restore rooms_at_B preserver_A)) = rooms_at_B"
    by blast
  from RoomPreserver_restore_guarded [of rooms_at_A preserver_A] held same store
  have a: "fst (snd (RoomPreserver_restore rooms_at_A preserver_A)) =
             rooms_at_A\<lparr>getStore := (getStore rooms_at_A)
                 (preserved_rid snapshot_A \<mapsto>
                    RoomStore_update (preserved_scroll snapshot_A) (preserved_lastTime snapshot_A)
                      (preserved_atBottom snapshot_A) store_A)\<rparr>"
    and c: "preservedData (snd (snd (RoomPreserver_restore rooms_at_A preserver_A))) = None"
    by blast+
  have upd: "getStore (rooms_at_A\<lparr>getStore := (getStore rooms_at_A)
                 (preserved_rid snapshot_A \<mapsto>
                    RoomStore_update (preserved_scroll snapshot_A) (preserved_lastTime snapshot_A)
                      (preserved_atBottom snapshot_A) store_A)\<rparr>) ''A''
              = Some \<lparr>scroll = Some 120, lastTime = Some 1000, atBottom = Some False\<rparr>"
    by (simp add: snapshot_A_def store_A_def RoomStore_update_def)
  show ?thesis
    using held other same store b c upd unfolding a by simp
qed


section \<open>One cleanup pass\<close>

lemma safe_step:
  "tryCatch (invoke throws name) (\<lambda>error. console ''warn'' msg) m =
     (Inr (), m\<lparr>effects := effects m @ step_effects throws name msg\<rparr>)"
  by (simp add: tryCatch_def invoke_def console_def step_effects_def)

lemma tryCatch_Inr: "f m = (Inr u, m') \<Longrightarrow> tryCatch f h m = (Inr u, m')"
  by (simp add: tryCatch_def)

lemma performSafeCleanup_result:
  "performSafeCleanup throws m =
     (Inr (), m\<lparr>effects := effects m
        @ step_effects throws ''VideoConfManager.dismissedIncomingCalls''
            ''[FullResetCleanup] Safe VideoConf cleanup failed:''
        @ step_effects throws ''window.dispatchEvent(voip:cleanup-history-only)''
            ''[FullResetCleanup] Safe VoIP cleanup failed:''
        @ step_effects throws ''document.querySelectorAll([data-cleanup-safe]).remove''
            ''[FullResetCleanup] Safe DOM cleanup failed:''
        @ step_effects throws ''microtaskCleanup.performMicrotaskCleanup''
            ''[FullResetCleanup] Safe microtask cleanup failed:'',
       cleanupHistory := cleanupHistory m @ [''Safe VideoConf cleanup'', ''Safe VoIP cleanup'',
                              ''Safe DOM cleanup'', ''Safe microtask cleanup'']\<rparr>)"
  (is "_ = (Inr (), ?m')")
proof -
  have "andThen (safeCleanupVideoConf throws)
       (andThen (safeCleanupVoIP throws)
       (andThen (safeCleanupDOMAndEvents throws)
       (andThen (safeCleanupMicrotasks throws)
                (pushHistory [''Safe VideoConf cleanup'', ''Safe VoIP cleanup'',
                              ''Safe DOM cleanup'', ''Safe microtask cleanup''])))) m
        = (Inr (), ?m')"
    unfolding safeCleanupVideoConf_def safeCleanupVoIP_def
      safeCleanupDOMAndEvents_def safeCleanupMicrotasks_def
    by (simp add: safe_step andThen_def pushHistory_def)
  then show ?thesis
    unfolding performSafeCleanup_def by (rule tryCatch_Inr)
qed

lemma performFullReset_result:
  "performFullReset throws preserve m =
     (Inr (), m\<lparr>effects := effects m @ pass_effects throws,
       cleanupHistory := [''EMERGENCY MODE: Performed safe cleanup only'']\<rparr>)"
  by (simp add: performFullReset_def andThen_def console_def performSafeCleanup_result
      logCleanupResults_def pass_effects_def)

lemma performRefresh_result:
  "performRefresh throws m =
     m\<lparr>effects := effects m @ [Emit ''refresh/started''] @ pass_effects throws
                   @ [Emit ''refresh/completed''],
       cleanupHistory := [''EMERGENCY MODE: Performed safe cleanup only'']\<rparr>"
  by (simp add: performRefresh_def tryCatch_def andThen_def Manager_emit_def
      performFullReset_result)

lemma pass_effects_invokes: "filter isInvoke (pass_effects throws) = map Invoke steps"
  by (simp add: pass_effects_def step_effects_def steps_def)

lemma pass_effects_no_emit: "Emit name \<notin> set (pass_effects throws)"
  by (simp add: pass_effects_def step_effects_def)

lemma pass_effects_voip:
  "pass_effects voip_throws =
     [Console ''warn'' ''[FullResetCleanup] FULL RESET DISABLED - causes room access issues'',
      Console ''warn'' ''[FullResetCleanup] Falling back to safe cleanup only'',
      Invoke ''VideoConfManager.dismissedIncomingCalls'',
      Invoke ''window.dispatchEvent(voip:cleanup-history-only)'',
      Console ''warn'' ''[FullResetCleanup] Safe VoIP cleanup failed:'',
      Invoke ''document.querySelectorAll([data-cleanup-safe]).remove'',
      Invoke ''microtaskCleanup.performMicrotaskCleanup'',
      Console ''group'' ''[FullResetCleanup] Cleanup Results'',
      Console ''log'' check_mark,
      Console ''groupEnd'' '''']"
  by (simp add: pass_effects_def step_effects_def voip_throws_def)

text \<open>
  C3. In every pass, whichever of the steps' requests throw, the effects of
  \<open>performRefresh\<close> are \<open>refresh/started\<close>, then the effects of the steps, then
  \<open>refresh/completed\<close>: the two events occur once each, first and last, and the
  requests of all four steps are made, in their order, so a step after a failing one
  still runs.
\<close>

theorem performRefresh_completes_despite_failures:
  "\<exists>mid. effects (performRefresh throws m)
           = effects m @ [Emit ''refresh/started''] @ mid @ [Emit ''refresh/completed'']
       \<and> filter isInvoke mid = map Invoke steps
       \<and> Emit ''refresh/started'' \<notin> set mid
       \<and> Emit ''refresh/completed'' \<notin> set mid"
proof (intro exI conjI)
  show "effects (performRefresh throws m)
          = effects m @ [Emit ''refresh/started''] @ pass_effects throws
              @ [Emit ''refresh/completed'']"
    by (simp add: performRefresh_result)
  show "filter isInvoke (pass_effects throws) = map Invoke steps"
    by (rule pass_effects_invokes)
  show "Emit ''refresh/started'' \<notin> set (pass_effects throws)"
    and "Emit ''refresh/completed'' \<notin> set (pass_effects throws)"
    by (rule pass_effects_no_emit)+
qed

text \<open>
  A pass in which the VoIP request throws: the failure is logged, the DOM and microtask
  steps still make their requests, and \<open>refresh/completed\<close> closes the pass.
\<close>

theorem performRefresh_completes_despite_failures_witness:
  "\<exists>mid. effects (performRefresh voip_throws manager0)
           = [Emit ''refresh/started''] @ mid @ [Emit ''refresh/completed'']
       \<and> filter isInvoke mid = map Invoke steps
       \<and> Console ''warn'' ''[FullResetCleanup] Safe VoIP cleanup failed:'' \<in> set mid
       \<and> voip_throws (steps ! 1)
       \<and> count_list (effects (performRefresh voip_throws manager0))
            (Emit ''refresh/completed'') = 1"
proof -
  from performRefresh_completes_despite_failures [of voip_throws manager0]
  obtain mid where eq: "effects (performRefresh voip_throws manager0)
           = effects manager0 @ [Emit ''refresh/started''] @ mid @ [Emit ''refresh/completed'']"
    and inv: "filter isInvoke mid = map Invoke steps"
    and no: "Emit ''refresh/completed'' \<notin> set mid"
    by blast
  have e0: "effects manager0 = []"
    by (simp add: manager0_def)
  have "effects (performRefresh voip_throws manager0)
          = [Emit ''refresh/started''] @ pass_effects voip_throws @ [Emit ''refresh/completed'']"
    by (simp add: performRefresh_result e0)
  with eq have mid: "mid = pass_effects voip_throws"
    by (simp add: e0)
  have warn: "Console ''warn'' ''[FullResetCleanup] Safe VoIP cleanup failed:'' \<in> set mid"
    unfolding mid pass_effects_voip by simp
  have thr: "voip_throws (steps ! 1)"
    by (simp add: steps_def voip_throws_def)
  from no have "count_list mid (Emit ''refresh/completed'') = 0"
    by (simp add: count_list_0_iff)
  then have once: "count_list (effects (performRefresh voip_throws manager0))
            (Emit ''refresh/completed'') = 1"
    unfolding eq e0 by simp
  show ?thesis
    using eq inv warn thr once unfolding e0 by (intro exI [of _ mid]) simp
qed

text \<open>
  The flag is not read: \<open>performRefresh\<close> hands \<open>preserveCurrentRoom\<close> to
  \<open>performFullReset\<close>, which ignores it, and nothing calls the room preserver that the
  constructor built. The preserver and the config come out of a pass as they went
  in, the only requests of a pass are those of the four steps, and its effects are the
  same under either value of the flag.
\<close>

lemma performRefresh_flag_not_read:
  "roomPreserver (performRefresh throws m) = roomPreserver m
   \<and> config (performRefresh throws m) = config m
   \<and> filter isInvoke (drop (length (effects m)) (effects (performRefresh throws m)))
       = map Invoke steps
   \<and> effects (performRefresh throws (m\<lparr>config := (config m)\<lparr>preserveCurrentRoom := b\<rparr>\<rparr>))
       = effects (performRefresh throws m)"
  by (simp add: performRefresh_result pass_effects_invokes)

text \<open>
  C2 fails on the code. With \<open>preserveCurrentRoom\<close> enabled, as the constructor sets it,
  and no request throwing, the effects of a pass are the two events, the four requests
  of the safe cleanup and console output: no capture before the steps and no restore
  after them, and the snapshot slot of the room preserver is as empty after the pass
  as before.
\<close>

theorem performRefresh_makes_no_snapshot:
  "preserveCurrentRoom (config manager0)
   \<and> effects (performRefresh nothing_throws manager0) =
       [Emit ''refresh/started'',
        Console ''warn'' ''[FullResetCleanup] FULL RESET DISABLED - causes room access issues'',
        Console ''warn'' ''[FullResetCleanup] Falling back to safe cleanup only'',
        Invoke ''VideoConfManager.dismissedIncomingCalls'',
        Invoke ''window.dispatchEvent(voip:cleanup-history-only)'',
        Invoke ''document.querySelectorAll([data-cleanup-safe]).remove'',
        Invoke ''microtaskCleanup.performMicrotaskCleanup'',
        Console ''group'' ''[FullResetCleanup] Cleanup Results'',
        Console ''log'' check_mark,
        Console ''groupEnd'' '''',
        Emit ''refresh/completed'']
   \<and> Invoke ''roomPreserver.preserve'' \<notin> set (effects (performRefresh nothing_throws manager0))
   \<and> Invoke ''roomPreserver.restore'' \<notin> set (effects (performRefresh nothing_throws manager0))
   \<and> roomPreserver (performRefresh nothing_throws manager0) = \<lparr>preservedData = None\<rparr>"
  by (simp add: performRefresh_result pass_effects_def step_effects_def nothing_throws_def
      manager0_def)

end
